theory Spec2Isabelle
  imports Main "HOL-Library.Word"
begin

section \<open>Strings\<close>

text \<open>
  A JavaScript string is a sequence of UTF-16 code units. The literals of the source are
  ASCII; \<open>js\<close> reads an ASCII literal as code units.
\<close>

type_synonym jschar = "16 word"
type_synonym jsstring = "jschar list"

definition js :: "string \<Rightarrow> jsstring" where
  "js s = map (\<lambda>c. of_nat (of_char c)) s"

text \<open>The line feed of the template literal \<^verbatim>\<open>`\n${...}`\<close>.\<close>

definition newline :: jschar where
  "newline = 0x0A"

text \<open>
  The characters that \<^verbatim>\<open>String.prototype.trim\<close> strips and that \<^verbatim>\<open>\s\<close> matches in a
  regular expression: the WhiteSpace and LineTerminator code units of ECMAScript (TAB, LF,
  VT, FF, CR, SP, NBSP, U+1680, U+2000 to U+200A, U+2028, U+2029, U+202F, U+205F, U+3000,
  U+FEFF).
\<close>

definition isJsSpace :: "jschar \<Rightarrow> bool" where
  "isJsSpace c =
     (c \<in> {0x09, 0x0A, 0x0B, 0x0C, 0x0D, 0x20, 0xA0, 0x1680, 0x2028, 0x2029, 0x202F, 0x205F,
            0x3000, 0xFEFF}
      \<or> (0x2000 \<le> c \<and> c \<le> 0x200A))"

definition trim :: "jsstring \<Rightarrow> jsstring" where
  "trim s = rev (dropWhile isJsSpace (rev (dropWhile isJsSpace s)))"

section \<open>Data model\<close>

text \<open>
  \<^verbatim>\<open>interface Message { sender: 'user' | 'model'; text: string; isSilent?: boolean }\<close>.
  The optional flag is absent (\<open>None\<close>) on every message but the mood announcement.
\<close>

datatype sender = User | Model

record message =
  sender :: sender
  "text" :: jsstring
  isSilent :: "bool option"

text \<open>
  An entry of the request, \<^verbatim>\<open>{ role: msg.sender, parts: [{ text: msg.text }] }\<close>. The
  \<open>parts\<close> array is built with exactly one part and only \<open>parts[0].text\<close> is ever read
  or written, so the entry is kept as its role and the text of that one part.
\<close>

record content =
  role :: sender
  partText :: jsstring

section \<open>Request assembly (the body of handleSendMessage, lines 216 to 242)\<close>

text \<open>\<^verbatim>\<open>xs.slice(-n)\<close>: the last \<open>n\<close> elements, the whole array when it is shorter.\<close>

definition sliceLast :: "nat \<Rightarrow> 'a list \<Rightarrow> 'a list" where
  "sliceLast n xs = (if length xs \<le> n then xs else drop (length xs - n) xs)"

text \<open>\<^verbatim>\<open>!msg.isSilent\<close>: true for an absent flag and for \<open>false\<close>.\<close>

definition notSilent :: "message \<Rightarrow> bool" where
  "notSilent msg = (isSilent msg \<noteq> Some True)"

definition toContent :: "message \<Rightarrow> content" where
  "toContent msg = \<lparr> role = sender msg, partText = text msg \<rparr>"

text \<open>
  The reducer of \<^verbatim>\<open>contents.reduce((acc, msg) => ..., [])\<close>. \<open>acc[acc.length - 1]\<close> is
  \<open>undefined\<close> on the empty accumulator, which takes the \<open>else\<close> branch.
\<close>

definition mergeStep :: "content list \<Rightarrow> content \<Rightarrow> content list" where
  "mergeStep acc msg =
     (if acc \<noteq> [] \<and> role (last acc) = role msg
      then butlast acc @ [(last acc)\<lparr> partText := partText (last acc) @ newline # partText msg \<rparr>]
      else acc @ [msg])"

definition mergeContents :: "content list \<Rightarrow> content list" where
  "mergeContents contents = foldl mergeStep [] contents"

text \<open>
  \<^verbatim>\<open>if (mergedContents.length > 0 && mergedContents[0].role === 'model') mergedContents.shift()\<close>
\<close>

definition leadingFixup :: "content list \<Rightarrow> content list" where
  "leadingFixup mergedContents =
     (case mergedContents of
        [] \<Rightarrow> []
      | c # cs \<Rightarrow> if role c = Model then cs else c # cs)"

definition assembleContents :: "message list \<Rightarrow> content list" where
  "assembleContents messagesWithUser =
     leadingFixup (mergeContents (map toContent (filter notSilent (sliceLast 20 messagesWithUser))))"

section \<open>The dashboard and its handlers\<close>

text \<open>The keys of \<open>MOODS\<close>, which are the arguments \<open>handleMoodSelection\<close> is called with.\<close>

datatype mood = Happy | Neutral | Sad | Anxious

fun moodKey :: "mood \<Rightarrow> jsstring" where
  "moodKey Happy = js ''happy''"
| "moodKey Neutral = js ''neutral''"
| "moodKey Sad = js ''sad''"
| "moodKey Anxious = js ''anxious''"

text \<open>\<^verbatim>\<open>{ mood, date: new Date() }\<close>; the clock reading is an input of the model.\<close>

record moodEntry =
  mood :: mood
  date :: int

text \<open>
  The state of the \<open>Dashboard\<close> component that the handlers below read or write.
  \<open>aiRef\<close> says whether \<open>aiRef.current\<close> holds a client (it is \<open>null\<close> when the
  constructor threw at mount).
\<close>

record dashboard =
  messages :: "message list"
  input :: jsstring
  isLoading :: bool
  error :: jsstring
  moodHistory :: "moodEntry list"
  aiRef :: bool

definition INITIAL_MESSAGES :: "message list" where
  "INITIAL_MESSAGES =
     [\<lparr> sender = Model,
        text = js ''Hello, I'm Mlezi, your personal wellness companion. How are you feeling today? Feel free to share what's on your mind.'',
        isSilent = None \<rparr>]"

text \<open>
  The state after the first render and the effect that creates the client; \<open>ok\<close> says
  whether the constructor returned.
\<close>

definition mount :: "bool \<Rightarrow> dashboard" where
  "mount ok =
     \<lparr> messages = INITIAL_MESSAGES, input = [], isLoading = False,
       error = (if ok then [] else js ''Failed to initialize the AI model. Please check the API key.''),
       moodHistory = [], aiRef = ok \<rparr>"

definition handleNewChat :: "dashboard \<Rightarrow> dashboard" where
  "handleNewChat s = s\<lparr> messages := INITIAL_MESSAGES, input := [], isLoading := False, error := [] \<rparr>"

definition userMessage :: "jsstring \<Rightarrow> message" where
  "userMessage messageText = \<lparr> sender = User, text = messageText, isSilent = None \<rparr>"

definition modelMessage :: "jsstring \<Rightarrow> message" where
  "modelMessage responseText = \<lparr> sender = Model, text = responseText, isSilent = None \<rparr>"

definition errorMessage :: message where
  "errorMessage =
     \<lparr> sender = Model,
       text = js ''I'm having a little trouble connecting right now. Please try again in a moment.'',
       isSilent = None \<rparr>"

text \<open>
  What the awaited \<open>generateContent\<close> call does: it resolves with the text of the
  response, or it (or reading the response) throws.
\<close>

datatype outcome = Resolved jsstring | Rejected

text \<open>
  Lines 244 to 249: the emptiness guard. The result is the state and the request that is
  sent, if any. On the guarded path \<open>setIsLoading(false)\<close> runs, then \<open>return\<close>, then the
  \<open>finally\<close> block sets the flag to \<open>false\<close> once more.
\<close>

definition dispatchRequest :: "content list \<Rightarrow> dashboard \<Rightarrow> dashboard \<times> content list option" where
  "dispatchRequest mergedContents s =
     (if mergedContents = [] then (s\<lparr> isLoading := False \<rparr>, None)
      else (s, Some mergedContents))"

text \<open>
  \<open>handleSendMessage\<close> up to its \<open>await\<close>. The handler reads \<open>messages\<close>, \<open>input\<close> and
  \<open>isLoading\<close> from the render it was created in (\<open>r\<close>), and its setters act on the
  state as it is when they run (\<open>s\<close>): \<open>setMessages\<close> is given an updater of the previous
  log, the other setters are given values. From the form \<open>r\<close> and \<open>s\<close> are the same state;
  \<open>handleMoodSelection\<close> calls the handler after setters of its own. A missing client
  throws inside \<open>try\<close>, so \<open>catch\<close> appends the fallback message and \<open>finally\<close> clears
  the loading flag.
\<close>

definition beforeAwait :: "jsstring \<Rightarrow> dashboard \<Rightarrow> dashboard \<Rightarrow> dashboard \<times> content list option" where
  "beforeAwait messageText r s =
     (if trim messageText = [] \<or> isLoading r then (s, None)
      else
        let s1 = s\<lparr> messages := messages s @ [userMessage messageText],
                    input := (if messageText = input r then [] else input s),
                    isLoading := True,
                    error := [] \<rparr>
        in if \<not> aiRef s1
           then (s1\<lparr> messages := messages s1 @ [errorMessage], isLoading := False \<rparr>, None)
           else dispatchRequest (assembleContents (messages r @ [userMessage messageText])) s1)"

text \<open>
  \<open>handleSendMessage\<close> from the point where the awaited call settles: the reply or the
  fallback message is appended to the log as it is then, and \<open>finally\<close> clears the flag.
\<close>

definition afterAwait :: "outcome \<Rightarrow> dashboard \<Rightarrow> dashboard" where
  "afterAwait result s =
     (case result of
        Resolved responseText \<Rightarrow>
          s\<lparr> messages := messages s @ [modelMessage responseText], isLoading := False \<rparr>
      | Rejected \<Rightarrow>
          s\<lparr> messages := messages s @ [errorMessage], isLoading := False \<rparr>)"

text \<open>
  The whole handler with nothing else happening while it waits. \<open>remote\<close> is the external
  service; the second component is the request that was sent to it, if any.
\<close>

definition handleSendMessage ::
  "(content list \<Rightarrow> outcome) \<Rightarrow> jsstring \<Rightarrow> dashboard \<Rightarrow> dashboard \<Rightarrow> dashboard \<times> content list option" where
  "handleSendMessage remote messageText r s =
     (case beforeAwait messageText r s of
        (s1, None) \<Rightarrow> (s1, None)
      | (s1, Some mergedContents) \<Rightarrow> (afterAwait (remote mergedContents) s1, Some mergedContents))"

text \<open>
  Lines 244 to 265 as a function of the assembled turn list: the guard, the call and the
  handling of its result. \<open>handleSendMessage_from_guard\<close> below shows that the handler is
  this function applied to the assembled contents.
\<close>

definition sendAssembled ::
  "(content list \<Rightarrow> outcome) \<Rightarrow> content list \<Rightarrow> dashboard \<Rightarrow> dashboard \<times> content list option" where
  "sendAssembled remote mergedContents s =
     (case dispatchRequest mergedContents s of
        (s1, None) \<Rightarrow> (s1, None)
      | (s1, Some cs) \<Rightarrow> (afterAwait (remote cs) s1, Some cs))"

text \<open>Lines 269 to 272 of \<open>handleMoodSelection\<close>: the two setters before the send.\<close>

definition moodUpdates :: "mood \<Rightarrow> int \<Rightarrow> dashboard \<Rightarrow> dashboard" where
  "moodUpdates m now s =
     s\<lparr> moodHistory := sliceLast 7 (moodHistory s @ [\<lparr> mood = m, date = now \<rparr>]),
        messages := messages s @
          [\<lparr> sender = User, text = js ''I'm feeling '' @ moodKey m @ js ''.'', isSilent = Some True \<rparr>] \<rparr>"

definition moodPrompt :: "mood \<Rightarrow> jsstring" where
  "moodPrompt m =
     js ''I've just logged my mood as '' @ moodKey m
       @ js ''. Can you give me a brief, supportive thought for the day based on that?''"

definition handleMoodSelection ::
  "(content list \<Rightarrow> outcome) \<Rightarrow> mood \<Rightarrow> int \<Rightarrow> dashboard \<Rightarrow> dashboard \<times> content list option" where
  "handleMoodSelection remote m now s = handleSendMessage remote (moodPrompt m) s (moodUpdates m now s)"

subsection \<open>Events of a dashboard session\<close>

text \<open>
  The handlers run one event at a time, and a pending request settles as an event of its
  own, possibly after other events. \<open>inFlight\<close> counts the requests that have been sent and
  have not settled.
\<close>

datatype event =
    Typed jsstring
  | Submitted
  | MoodSelected mood int
  | NewChatClicked
  | Settled outcome

record session =
  dash :: dashboard
  inFlight :: nat

definition launch :: "dashboard \<times> content list option \<Rightarrow> session \<Rightarrow> session" where
  "launch res \<sigma> =
     \<lparr> dash = fst res,
       inFlight = (case snd res of None \<Rightarrow> inFlight \<sigma> | Some _ \<Rightarrow> Suc (inFlight \<sigma>)) \<rparr>"

fun fire :: "session \<Rightarrow> event \<Rightarrow> session" where
  "fire \<sigma> (Typed t) = \<sigma>\<lparr> dash := (dash \<sigma>)\<lparr> input := t \<rparr> \<rparr>"
| "fire \<sigma> Submitted = launch (beforeAwait (input (dash \<sigma>)) (dash \<sigma>) (dash \<sigma>)) \<sigma>"
| "fire \<sigma> (MoodSelected m now) =
     launch (beforeAwait (moodPrompt m) (dash \<sigma>) (moodUpdates m now (dash \<sigma>))) \<sigma>"
| "fire \<sigma> NewChatClicked = \<sigma>\<lparr> dash := handleNewChat (dash \<sigma>) \<rparr>"
| "fire \<sigma> (Settled result) =
     (if inFlight \<sigma> = 0 then \<sigma>
      else \<lparr> dash = afterAwait result (dash \<sigma>), inFlight = inFlight \<sigma> - 1 \<rparr>)"

definition run :: "bool \<Rightarrow> event list \<Rightarrow> session" where
  "run ok evs = foldl fire \<lparr> dash = mount ok, inFlight = 0 \<rparr> evs"

section \<open>The login screen and the authentication controller\<close>

text \<open>
  The fragment of regular expressions that \<^verbatim>\<open>/\S+@\S+\.\S+/\<close> is written in: a sequence of
  pieces, each a character class taken once or one or more times. \<open>matchHere\<close> says whether
  some prefix of the string matches the sequence (every way of splitting is tried, as a
  backtracking matcher does), and \<open>regexTest\<close> is \<^verbatim>\<open>RegExp.prototype.test\<close> without
  flags: a match may start at any index.
\<close>

datatype atom = NonSpace | Lit jschar

datatype piece = Once atom | Repeat atom

fun atomOk :: "atom \<Rightarrow> jschar \<Rightarrow> bool" where
  "atomOk NonSpace c = (\<not> isJsSpace c)"
| "atomOk (Lit l) c = (c = l)"

fun matchHere :: "piece list \<Rightarrow> jsstring \<Rightarrow> bool" where
  "matchHere [] s = True"
| "matchHere (p # ps) [] = False"
| "matchHere (Once a # ps) (c # cs) = (atomOk a c \<and> matchHere ps cs)"
| "matchHere (Repeat a # ps) (c # cs) =
     (atomOk a c \<and> (matchHere (Repeat a # ps) cs \<or> matchHere ps cs))"

fun regexTest :: "piece list \<Rightarrow> jsstring \<Rightarrow> bool" where
  "regexTest ps [] = matchHere ps []"
| "regexTest ps (c # cs) = (matchHere ps (c # cs) \<or> regexTest ps cs)"

text \<open>\<^verbatim>\<open>/\S+@\S+\.\S+/\<close>\<close>

definition emailPattern :: "piece list" where
  "emailPattern = [Repeat NonSpace, Once (Lit 0x40), Repeat NonSpace, Once (Lit 0x2E), Repeat NonSpace]"

text \<open>
  The state of \<open>LoginScreen\<close> (its \<open>error\<close> is \<open>loginError\<close> here, the dashboard has an
  \<open>error\<close> of its own) and of \<open>App\<close>.
\<close>

record loginScreen =
  email :: jsstring
  password :: jsstring
  loginError :: jsstring

record app =
  isAuthenticated :: bool
  userEmail :: jsstring

definition initialApp :: app where
  "initialApp = \<lparr> isAuthenticated = False, userEmail = [] \<rparr>"

definition handleLogin :: "jsstring \<Rightarrow> app \<Rightarrow> app" where
  "handleLogin e a = a\<lparr> userEmail := e, isAuthenticated := True \<rparr>"

definition handleLogout :: "app \<Rightarrow> app" where
  "handleLogout a = a\<lparr> isAuthenticated := False, userEmail := [] \<rparr>"

text \<open>\<open>handleSubmit\<close> with \<open>onLogin\<close> bound to \<open>handleLogin\<close>, as \<open>App\<close> renders it.\<close>

definition handleSubmit :: "loginScreen \<Rightarrow> app \<Rightarrow> loginScreen \<times> app" where
  "handleSubmit l a =
     (if email l = [] \<or> password l = []
      then (l\<lparr> loginError := js ''Please enter both email and password.'' \<rparr>, a)
      else if \<not> regexTest emailPattern (email l)
      then (l\<lparr> loginError := js ''Please enter a valid email address.'' \<rparr>, a)
      else (l\<lparr> loginError := [] \<rparr>, handleLogin (email l) a))"

section \<open>Specification-side notions\<close>

text \<open>
  The names the properties below are stated with. \<open>joinLines\<close> joins texts with a line
  feed between neighbours; a run is a non-empty stretch of entries of one role, and
  \<open>joinRun\<close> is the single turn that stands for it.
\<close>

fun joinLines :: "jsstring list \<Rightarrow> jsstring" where
  "joinLines [] = []"
| "joinLines [t] = t"
| "joinLines (t # u # ts) = t @ newline # joinLines (u # ts)"

definition joinRun :: "content list \<Rightarrow> content" where
  "joinRun g = \<lparr> role = role (hd g), partText = joinLines (map partText g) \<rparr>"

definition uniformRun :: "content list \<Rightarrow> bool" where
  "uniformRun g = (g \<noteq> [] \<and> (\<forall>c \<in> set g. role c = role (hd g)))"

text \<open>The mood entries that a sequence of events records, in order.\<close>

fun moodEntriesOf :: "event list \<Rightarrow> moodEntry list" where
  "moodEntriesOf [] = []"
| "moodEntriesOf (MoodSelected m now # evs) = \<lparr> mood = m, date = now \<rparr> # moodEntriesOf evs"
| "moodEntriesOf (ev # evs) = moodEntriesOf evs"

text \<open>
  A string matches \<^verbatim>\<open>\S+@\S+\.\S+\<close> somewhere: it contains a non-empty stretch of
  non-space characters, an at sign, another such stretch, a full stop, and a third stretch.
\<close>

definition nonSpaces :: "jsstring \<Rightarrow> bool" where
  "nonSpaces w = (w \<noteq> [] \<and> (\<forall>c \<in> set w. \<not> isJsSpace c))"

definition emailShaped :: "jsstring \<Rightarrow> bool" where
  "emailShaped e =
     (\<exists>u a b c v. e = u @ a @ 0x40 # b @ 0x2E # c @ v \<and> nonSpaces a \<and> nonSpaces b \<and> nonSpaces c)"

section \<open>Properties of the merge step\<close>

lemma mergeContents_snoc: "mergeContents (xs @ [x]) = mergeStep (mergeContents xs) x"
  by (simp add: mergeContents_def)

lemma mergeContents_Nil: "mergeContents [] = []"
  by (simp add: mergeContents_def)

lemma role_mergeStep:
  "map role (mergeStep acc x) =
     (if acc \<noteq> [] \<and> role (last acc) = role x then map role acc else map role acc @ [role x])"
  by (cases acc rule: rev_cases) (simp_all add: mergeStep_def)

lemma roles_merge_alternate: "distinct_adj (map role (mergeContents xs))"
proof (induction xs rule: rev_induct)
  case Nil
  show ?case by (simp add: mergeContents_Nil)
next
  case (snoc x xs)
  show ?case
  proof (cases "mergeContents xs" rule: rev_cases)
    case Nil
    then show ?thesis by (simp add: mergeContents_snoc mergeStep_def)
  next
    case (snoc ys y)
    with snoc.IH show ?thesis
      by (auto simp add: mergeContents_snoc role_mergeStep distinct_adj_append_iff)
  qed
qed

lemma merge_fixed: "distinct_adj (map role xs) \<Longrightarrow> mergeContents xs = xs"
proof (induction xs rule: rev_induct)
  case Nil
  show ?case by (simp add: mergeContents_Nil)
next
  case (snoc x xs)
  from snoc.prems have d: "distinct_adj (map role xs)"
    and n: "xs = [] \<or> role (last xs) \<noteq> role x"
    by (auto simp: distinct_adj_append_iff last_map)
  from snoc.IH[OF d] n show ?case
    by (auto simp add: mergeContents_snoc mergeStep_def)
qed

lemma joinLines_snoc: "ts \<noteq> [] \<Longrightarrow> joinLines (ts @ [t]) = joinLines ts @ newline # t"
  by (induction ts rule: joinLines.induct) simp_all

lemma joinRun_snoc:
  "g \<noteq> [] \<Longrightarrow>
   joinRun (g @ [x]) = (joinRun g)\<lparr> partText := partText (joinRun g) @ newline # partText x \<rparr>"
  by (simp add: joinRun_def joinLines_snoc)

lemma joinRun_single: "joinRun [x] = x"
  by (simp add: joinRun_def)

lemma uniformRun_single: "uniformRun [x]"
  by (simp add: uniformRun_def)

lemma uniformRun_snoc:
  assumes "uniformRun g" and "role x = role (hd g)"
  shows "uniformRun (g @ [x])"
proof -
  from assms(1) have ne: "g \<noteq> []" and all: "\<forall>c \<in> set g. role c = role (hd g)"
    unfolding uniformRun_def by blast+
  have "role c = role (hd g)" if "c \<in> set (g @ [x])" for c
  proof -
    from that have "c \<in> set g \<or> c = x" by auto
    then show ?thesis using all assms(2) by blast
  qed
  then have a: "\<forall>c \<in> set (g @ [x]). role c = role (hd g)" by blast
  have h: "hd (g @ [x]) = hd g" using ne by simp
  have n: "g @ [x] \<noteq> []" by simp
  from n a show ?thesis unfolding uniformRun_def h by (rule conjI)
qed

lemma merge_runs:
  "\<exists>gs. concat gs = xs \<and> (\<forall>g \<in> set gs. uniformRun g) \<and> mergeContents xs = map joinRun gs"
proof (induction xs rule: rev_induct)
  case Nil
  show ?case by (rule exI[of _ "[]"]) (simp add: mergeContents_Nil)
next
  case (snoc x xs)
  then obtain gs where gs: "concat gs = xs" "\<forall>g \<in> set gs. uniformRun g"
    "mergeContents xs = map joinRun gs" by blast
  show ?case
  proof (cases "mergeContents xs \<noteq> [] \<and> role (last (mergeContents xs)) = role x")
    case True
    with gs(3) have ne: "gs \<noteq> []" by auto
    define g where "g = last gs"
    have gsplit: "gs = butlast gs @ [g]" using ne by (simp add: g_def)
    have ug: "uniformRun g" using gs(2) ne by (simp add: g_def)
    then have gne: "g \<noteq> []" by (simp add: uniformRun_def)
    have lastm: "last (mergeContents xs) = joinRun g"
      using gs(3) ne by (simp add: g_def last_map)
    have bl: "butlast (mergeContents xs) = map joinRun (butlast gs)"
      using gs(3) by (simp add: map_butlast)
    have rx: "role x = role (hd g)" using True lastm by (simp add: joinRun_def)
    let ?gs = "butlast gs @ [g @ [x]]"
    have c: "concat ?gs = xs @ [x]"
    proof -
      have "concat gs = concat (butlast gs) @ g" by (subst gsplit) simp
      then show ?thesis using gs(1) by simp
    qed
    have u: "\<forall>h \<in> set ?gs. uniformRun h"
    proof
      fix h assume "h \<in> set ?gs"
      then consider "h \<in> set (butlast gs)" | "h = g @ [x]" by auto
      then show "uniformRun h"
      proof cases
        case 1
        then have "h \<in> set gs" by (rule in_set_butlastD)
        then show ?thesis using gs(2) by blast
      next
        case 2
        then show ?thesis using uniformRun_snoc[OF ug rx] by simp
      qed
    qed
    have "mergeStep (mergeContents xs) x =
        butlast (mergeContents xs) @
          [(last (mergeContents xs))\<lparr> partText := partText (last (mergeContents xs)) @ newline # partText x \<rparr>]"
      using True unfolding mergeStep_def by simp
    also have "\<dots> = map joinRun (butlast gs) @ [joinRun (g @ [x])]"
      unfolding lastm bl joinRun_snoc[OF gne] by (rule refl)
    finally have m: "mergeContents (xs @ [x]) = map joinRun ?gs"
      by (simp add: mergeContents_snoc)
    from c u m show ?thesis by blast
  next
    case False
    let ?gs = "gs @ [[x]]"
    have c: "concat ?gs = xs @ [x]" using gs(1) by simp
    have u: "\<forall>h \<in> set ?gs. uniformRun h" using gs(2) uniformRun_single by auto
    have m: "mergeContents (xs @ [x]) = map joinRun ?gs"
      using False gs(3) by (auto simp add: mergeContents_snoc mergeStep_def joinRun_single)
    from c u m show ?thesis by blast
  qed
qed

lemma merge_maximal_runs:
  "\<exists>runs. concat runs = xs
        \<and> (\<forall>g \<in> set runs. uniformRun g)
        \<and> distinct_adj (map (\<lambda>g. role (hd g)) runs)
        \<and> mergeContents xs = map joinRun runs"
proof -
  obtain gs where gs: "concat gs = xs" "\<forall>g \<in> set gs. uniformRun g"
    "mergeContents xs = map joinRun gs" using merge_runs by blast
  have eq: "map role (map joinRun gs) = map (\<lambda>g. role (hd g)) gs"
    by (simp add: joinRun_def)
  have "distinct_adj (map role (map joinRun gs))"
    using roles_merge_alternate[of xs] unfolding gs(3) .
  then have "distinct_adj (map (\<lambda>g. role (hd g)) gs)" by (simp only: eq)
  with gs show ?thesis by blast
qed

text \<open>
  Claim C2. The merge step never leaves two neighbouring turns with the same role, and
  merging its own output changes nothing. Neighbouring entries of one role are joined into
  one turn, on every input: the input splits, in order and with nothing left over, into runs
  of entries of one role, neighbouring runs having different roles, and the output has
  exactly one turn per run, with the run's role and the run's texts in order with a line
  feed between neighbours. For two entries of one role this is the first text, a line feed,
  the second text. The scenario of the specification: user "A", user "B", model "C" merge
  to user "A\nB", model "C".
\<close>

theorem merge_alternates_and_is_idempotent:
  "distinct_adj (map role (mergeContents contents))
   \<and> mergeContents (mergeContents contents) = mergeContents contents
   \<and> (role x = role y \<longrightarrow>
        mergeContents [x, y] = [x\<lparr> partText := partText x @ newline # partText y \<rparr>])
   \<and> mergeContents [\<lparr> role = User, partText = js ''A'' \<rparr>, \<lparr> role = User, partText = js ''B'' \<rparr>,
                     \<lparr> role = Model, partText = js ''C'' \<rparr>]
      = [\<lparr> role = User, partText = js ''A'' @ newline # js ''B'' \<rparr>, \<lparr> role = Model, partText = js ''C'' \<rparr>]
   \<and> (\<exists>runs. concat runs = contents
          \<and> (\<forall>g \<in> set runs. uniformRun g)
          \<and> distinct_adj (map (\<lambda>g. role (hd g)) runs)
          \<and> mergeContents contents = map joinRun runs)"
proof (intro conjI)
  show "\<exists>runs. concat runs = contents
          \<and> (\<forall>g \<in> set runs. uniformRun g)
          \<and> distinct_adj (map (\<lambda>g. role (hd g)) runs)
          \<and> mergeContents contents = map joinRun runs"
    by (rule merge_maximal_runs)
  show "distinct_adj (map role (mergeContents contents))" by (rule roles_merge_alternate)
  show "mergeContents (mergeContents contents) = mergeContents contents"
    by (rule merge_fixed) (rule roles_merge_alternate)
  show "role x = role y \<longrightarrow>
        mergeContents [x, y] = [x\<lparr> partText := partText x @ newline # partText y \<rparr>]"
    by (simp add: mergeContents_def mergeStep_def)
  show "mergeContents [\<lparr> role = User, partText = js ''A'' \<rparr>, \<lparr> role = User, partText = js ''B'' \<rparr>,
                     \<lparr> role = Model, partText = js ''C'' \<rparr>]
      = [\<lparr> role = User, partText = js ''A'' @ newline # js ''B'' \<rparr>, \<lparr> role = Model, partText = js ''C'' \<rparr>]"
    by (simp add: mergeContents_def mergeStep_def)
qed

theorem merge_alternates_and_is_idempotent_witness:
  "role \<lparr> role = Model, partText = [0x48, 0x69] \<rparr> = role \<lparr> role = Model, partText = [0x3F] \<rparr>
   \<and> mergeContents [\<lparr> role = Model, partText = [0x48, 0x69] \<rparr>, \<lparr> role = Model, partText = [0x3F] \<rparr>]
       = [\<lparr> role = Model, partText = [0x48, 0x69, 0x0A, 0x3F] \<rparr>]
   \<and> (\<exists>runs. concat runs = [\<lparr> role = User, partText = [0x41] \<rparr>, \<lparr> role = Model, partText = [0x42] \<rparr>,
                              \<lparr> role = Model, partText = [0x43] \<rparr>, \<lparr> role = User, partText = [0x44] \<rparr>]
          \<and> map joinRun runs = [\<lparr> role = User, partText = [0x41] \<rparr>,
                                 \<lparr> role = Model, partText = [0x42, 0x0A, 0x43] \<rparr>,
                                 \<lparr> role = User, partText = [0x44] \<rparr>])"
proof -
  let ?x = "\<lparr> role = Model, partText = [0x48, 0x69::jschar] \<rparr>"
  let ?y = "\<lparr> role = Model, partText = [0x3F::jschar] \<rparr>"
  let ?xs = "[\<lparr> role = User, partText = [0x41] \<rparr>, \<lparr> role = Model, partText = [0x42] \<rparr>,
              \<lparr> role = Model, partText = [0x43] \<rparr>, \<lparr> role = User, partText = [0x44::jschar] \<rparr>]"
  note inst = merge_alternates_and_is_idempotent[of ?xs ?x ?y]
  have same: "role ?x = role ?y" by simp
  from inst same have "mergeContents [?x, ?y] = [?x\<lparr> partText := partText ?x @ newline # partText ?y \<rparr>]"
    by blast
  then have two: "mergeContents [?x, ?y] = [\<lparr> role = Model, partText = [0x48, 0x69, 0x0A, 0x3F] \<rparr>]"
    by (simp add: newline_def)
  from inst obtain runs where r: "concat runs = ?xs" "mergeContents ?xs = map joinRun runs"
    by blast
  have "mergeContents ?xs = [\<lparr> role = User, partText = [0x41] \<rparr>,
                             \<lparr> role = Model, partText = [0x42, 0x0A, 0x43] \<rparr>,
                             \<lparr> role = User, partText = [0x44] \<rparr>]"
    by (simp add: mergeContents_def mergeStep_def newline_def)
  with r(2) have "map joinRun runs = [\<lparr> role = User, partText = [0x41] \<rparr>,
                                      \<lparr> role = Model, partText = [0x42, 0x0A, 0x43] \<rparr>,
                                      \<lparr> role = User, partText = [0x44] \<rparr>]"
    by (simp only:)
  with r(1) have ex: "\<exists>runs. concat runs = ?xs
          \<and> map joinRun runs = [\<lparr> role = User, partText = [0x41] \<rparr>,
                                 \<lparr> role = Model, partText = [0x42, 0x0A, 0x43] \<rparr>,
                                 \<lparr> role = User, partText = [0x44] \<rparr>]"
    by (intro exI[of _ runs] conjI)
  from same two ex show ?thesis by (intro conjI)
qed

text \<open>
  Claim C9. The merge step loses no text. The input splits, in order and with nothing left
  over, into runs of entries of one role, neighbouring runs having different roles, and the
  output has one turn per run: its role is the role of the run, and its text is the texts
  of the run in order with a line feed between neighbours.
\<close>

theorem merge_loses_no_text:
  "\<exists>runs. concat runs = contents
        \<and> (\<forall>g \<in> set runs. uniformRun g)
        \<and> distinct_adj (map (\<lambda>g. role (hd g)) runs)
        \<and> mergeContents contents = map joinRun runs"
proof -
  obtain gs where gs: "concat gs = contents" "\<forall>g \<in> set gs. uniformRun g"
    "mergeContents contents = map joinRun gs" using merge_runs by blast
  have eq: "map role (map joinRun gs) = map (\<lambda>g. role (hd g)) gs"
    by (simp add: joinRun_def)
  have "distinct_adj (map role (map joinRun gs))"
    using roles_merge_alternate[of contents] unfolding gs(3) .
  then have "distinct_adj (map (\<lambda>g. role (hd g)) gs)" by (simp only: eq)
  with gs show ?thesis by blast
qed

theorem merge_loses_no_text_witness:
  "\<exists>runs. concat runs = [\<lparr> role = User, partText = [0x41] \<rparr>, \<lparr> role = User, partText = [0x42] \<rparr>,
                           \<lparr> role = Model, partText = [0x43] \<rparr>]
        \<and> map joinRun runs = [\<lparr> role = User, partText = [0x41, 0x0A, 0x42] \<rparr>,
                               \<lparr> role = Model, partText = [0x43] \<rparr>]"
proof -
  let ?xs = "[\<lparr> role = User, partText = [0x41] \<rparr>, \<lparr> role = User, partText = [0x42] \<rparr>,
              \<lparr> role = Model, partText = [0x43::jschar] \<rparr>]"
  from merge_loses_no_text[of ?xs] obtain runs
    where r: "concat runs = ?xs" "mergeContents ?xs = map joinRun runs" by blast
  have "mergeContents ?xs = [\<lparr> role = User, partText = [0x41, 0x0A, 0x42] \<rparr>,
                             \<lparr> role = Model, partText = [0x43] \<rparr>]"
    by (simp add: mergeContents_def mergeStep_def newline_def)
  with r(2) have "map joinRun runs = [\<lparr> role = User, partText = [0x41, 0x0A, 0x42] \<rparr>,
                                      \<lparr> role = Model, partText = [0x43] \<rparr>]"
    by (simp only:)
  with r(1) show ?thesis by (intro exI[of _ runs] conjI)
qed

section \<open>The leading-turn fixup\<close>

text \<open>
  Claim C4. When the first turn of the list has role model, the fixup removes that turn and
  nothing else; when it has role user, the list is left as it is. The empty list stays
  empty.
\<close>

theorem leading_fixup_removes_one_model_turn:
  "(role c = Model \<longrightarrow> leadingFixup (c # cs) = cs)
   \<and> (role c = User \<longrightarrow> leadingFixup (c # cs) = c # cs)
   \<and> leadingFixup [] = []"
  by (simp add: leadingFixup_def)

theorem leading_fixup_removes_one_model_turn_witness:
  "role \<lparr> role = Model, partText = [0x48] \<rparr> = Model
   \<and> leadingFixup [\<lparr> role = Model, partText = [0x48] \<rparr>, \<lparr> role = User, partText = [0x49] \<rparr>]
       = [\<lparr> role = User, partText = [0x49] \<rparr>]
   \<and> role \<lparr> role = User, partText = [0x49] \<rparr> = User
   \<and> leadingFixup [\<lparr> role = User, partText = [0x49] \<rparr>, \<lparr> role = Model, partText = [0x48] \<rparr>]
       = [\<lparr> role = User, partText = [0x49] \<rparr>, \<lparr> role = Model, partText = [0x48] \<rparr>]"
  using leading_fixup_removes_one_model_turn
          [of "\<lparr> role = Model, partText = [0x48] \<rparr>" "[\<lparr> role = User, partText = [0x49] \<rparr>]"]
        leading_fixup_removes_one_model_turn
          [of "\<lparr> role = User, partText = [0x49] \<rparr>" "[\<lparr> role = Model, partText = [0x48] \<rparr>]"]
  by simp

section \<open>Assembling the request\<close>

lemma sliceLast_drop: "sliceLast n xs = drop (length xs - n) xs"
  by (simp add: sliceLast_def)

lemma sliceLast_map: "sliceLast n (map f xs) = map f (sliceLast n xs)"
  by (simp add: sliceLast_drop drop_map)

lemma set_sliceLast: "set (sliceLast n xs) \<subseteq> set xs"
  by (simp add: sliceLast_drop set_drop_subset)

lemma sliceLast_snoc: "sliceLast (Suc n) (xs @ [x]) = sliceLast n xs @ [x]"
  by (simp add: sliceLast_drop)

lemma length_sliceLast: "length (sliceLast n xs) \<le> n"
  by (simp add: sliceLast_drop)

lemma trim_empty_iff: "trim s = [] \<longleftrightarrow> (\<forall>c \<in> set s. isJsSpace c)"
proof
  assume "trim s = []"
  then have all: "\<forall>c \<in> set (dropWhile isJsSpace s). isJsSpace c"
    by (simp add: trim_def dropWhile_eq_Nil_conv)
  have "dropWhile isJsSpace s = []"
  proof (rule ccontr)
    assume ne: "dropWhile isJsSpace s \<noteq> []"
    then have "\<not> isJsSpace (hd (dropWhile isJsSpace s))" by (rule hd_dropWhile)
    moreover have "hd (dropWhile isJsSpace s) \<in> set (dropWhile isJsSpace s)"
      using ne by (rule hd_in_set)
    ultimately show False using all by blast
  qed
  then show "\<forall>c \<in> set s. isJsSpace c" by (simp add: dropWhile_eq_Nil_conv)
next
  assume "\<forall>c \<in> set s. isJsSpace c"
  then have h: "dropWhile isJsSpace s = []" by (simp add: dropWhile_eq_Nil_conv)
  show "trim s = []" unfolding trim_def h by simp
qed

lemma set_leadingFixup: "set (leadingFixup xs) \<subseteq> set xs"
  by (cases xs) (auto simp add: leadingFixup_def)

lemma leadingFixup_nonempty:
  "xs \<noteq> [] \<Longrightarrow> role (last xs) = User \<Longrightarrow> leadingFixup xs \<noteq> []"
  by (cases xs) (auto simp add: leadingFixup_def split: if_splits)

lemma mergeStep_last: "mergeStep acc x \<noteq> [] \<and> role (last (mergeStep acc x)) = role x"
  by (simp add: mergeStep_def)

lemma assembleContents_nonempty: "assembleContents (ms @ [userMessage t]) \<noteq> []"
proof -
  have s: "sliceLast 20 (ms @ [userMessage t]) = sliceLast 19 ms @ [userMessage t]"
    using sliceLast_snoc[of 19 ms "userMessage t"] by simp
  have n: "notSilent (userMessage t)" by (simp add: notSilent_def userMessage_def)
  have "map toContent (filter notSilent (sliceLast 20 (ms @ [userMessage t])))
        = map toContent (filter notSilent (sliceLast 19 ms)) @ [toContent (userMessage t)]"
    by (simp add: s n)
  then have m: "mergeContents (map toContent (filter notSilent (sliceLast 20 (ms @ [userMessage t]))))
        = mergeStep (mergeContents (map toContent (filter notSilent (sliceLast 19 ms)))) (toContent (userMessage t))"
    by (simp only: mergeContents_snoc)
  have "role (toContent (userMessage t)) = User" by (simp add: toContent_def userMessage_def)
  then show ?thesis
    unfolding assembleContents_def m
    using mergeStep_last[of "mergeContents (map toContent (filter notSilent (sliceLast 19 ms)))"
                            "toContent (userMessage t)"]
    by (intro leadingFixup_nonempty) simp_all
qed

lemma map_preimage: "set ys \<subseteq> f ` A \<Longrightarrow> \<exists>xs. ys = map f xs \<and> set xs \<subseteq> A"
proof (induction ys)
  case Nil
  show ?case by simp
next
  case (Cons y ys)
  then obtain xs where xs: "ys = map f xs" "set xs \<subseteq> A" by auto
  from Cons.prems obtain x where x: "x \<in> A" "y = f x" by auto
  show ?case by (rule exI[of _ "x # xs"]) (simp add: xs x)
qed

lemma retext_silent_filter:
  "filter notSilent (map (\<lambda>m. if notSilent m then m else m\<lparr> text := f m \<rparr>) xs) = filter notSilent xs"
  by (induction xs) (simp_all add: notSilent_def)

lemma assembled_turn_provenance:
  assumes "c \<in> set (assembleContents log)"
  shows "\<exists>ms. ms \<noteq> [] \<and> (\<forall>m \<in> set ms. m \<in> set log \<and> notSilent m \<and> sender m = role c)
             \<and> partText c = joinLines (map text ms)"
proof -
  define fl where "fl = filter notSilent (sliceLast 20 log)"
  obtain gs where gs: "concat gs = map toContent fl" "\<forall>g \<in> set gs. uniformRun g"
    "mergeContents (map toContent fl) = map joinRun gs"
    using merge_runs[of "map toContent fl"] by blast
  from assms have "c \<in> set (map joinRun gs)"
    using set_leadingFixup[of "map joinRun gs"] by (auto simp: assembleContents_def fl_def[symmetric] gs(3))
  then obtain g where g: "g \<in> set gs" "c = joinRun g" by auto
  from g(1) gs(2) have ug: "uniformRun g" by blast
  then have gne: "g \<noteq> []" and gall: "\<forall>d \<in> set g. role d = role (hd g)"
    unfolding uniformRun_def by blast+
  have "set g \<subseteq> set (concat gs)" using g(1) by auto
  then have "set g \<subseteq> toContent ` set fl" by (simp add: gs(1))
  then obtain ms where ms: "g = map toContent ms" "set ms \<subseteq> set fl"
    using map_preimage by blast
  have rc: "role c = role (hd g)" by (simp add: g(2) joinRun_def)
  have 1: "ms \<noteq> []" using gne ms(1) by auto
  have 2: "m \<in> set log \<and> notSilent m \<and> sender m = role c" if "m \<in> set ms" for m
  proof -
    from that ms(2) have "m \<in> set fl" by blast
    then have a: "m \<in> set log" "notSilent m"
      using set_sliceLast[of 20 log] by (auto simp: fl_def)
    from that have "toContent m \<in> set g" by (simp add: ms(1))
    with gall have "role (toContent m) = role (hd g)" by blast
    then have "sender m = role c" by (simp add: rc toContent_def)
    with a show ?thesis by blast
  qed
  have 3: "partText c = joinLines (map text ms)"
    by (simp add: g(2) joinRun_def ms(1) toContent_def comp_def)
  from 1 2 3 show ?thesis by blast
qed

text \<open>
  Claim C1. No silent entry reaches the request. The assembled contents do not depend on the
  text of any silent entry of the log (replacing those texts by anything leaves the contents
  unchanged), and every assembled turn is built from entries of the log that are not silent
  and have the turn's role: its text is their texts joined by line feeds. The entries of
  the request carry a role and a text only, so none carries a silent flag.
\<close>

theorem silent_entries_never_reach_the_request:
  "assembleContents (map (\<lambda>m. if notSilent m then m else m\<lparr> text := f m \<rparr>) log) = assembleContents log
   \<and> (\<forall>c \<in> set (assembleContents log).
         \<exists>ms. ms \<noteq> [] \<and> (\<forall>m \<in> set ms. m \<in> set log \<and> notSilent m \<and> sender m = role c)
              \<and> partText c = joinLines (map text ms))"
proof
  show "assembleContents (map (\<lambda>m. if notSilent m then m else m\<lparr> text := f m \<rparr>) log) = assembleContents log"
    by (simp only: assembleContents_def sliceLast_map retext_silent_filter)
  show "\<forall>c \<in> set (assembleContents log).
         \<exists>ms. ms \<noteq> [] \<and> (\<forall>m \<in> set ms. m \<in> set log \<and> notSilent m \<and> sender m = role c)
              \<and> partText c = joinLines (map text ms)"
    using assembled_turn_provenance by blast
qed

theorem silent_entries_never_reach_the_request_witness:
  "assembleContents
     (map (\<lambda>m. if notSilent m then m else m\<lparr> text := [0x58] \<rparr>)
        [\<lparr> sender = Model, text = [0x48], isSilent = None \<rparr>,
         \<lparr> sender = User, text = [0x53], isSilent = Some True \<rparr>,
         \<lparr> sender = User, text = [0x55], isSilent = None \<rparr>])
   = [\<lparr> role = User, partText = [0x55] \<rparr>]"
proof -
  let ?log = "[\<lparr> sender = Model, text = [0x48], isSilent = None \<rparr>,
               \<lparr> sender = User, text = [0x53], isSilent = Some True \<rparr>,
               \<lparr> sender = User, text = [0x55::jschar], isSilent = None \<rparr>]"
  have e: "assembleContents ?log = [\<lparr> role = User, partText = [0x55] \<rparr>]"
    by (simp add: assembleContents_def sliceLast_def notSilent_def toContent_def
          mergeContents_def mergeStep_def leadingFixup_def)
  from silent_entries_never_reach_the_request[of "\<lambda>m. [0x58]" ?log]
  have "assembleContents (map (\<lambda>m. if notSilent m then m else m\<lparr> text := [0x58] \<rparr>) ?log)
        = assembleContents ?log"
    by (rule conjunct1)
  then show ?thesis by (simp only: e)
qed

section \<open>Sending a message\<close>

lemma beforeAwait_started:
  assumes "trim messageText \<noteq> []" and "\<not> isLoading r"
  shows "beforeAwait messageText r s =
     (if \<not> aiRef s
      then (s\<lparr> messages := messages s @ [userMessage messageText] @ [errorMessage],
               input := (if messageText = input r then [] else input s),
               isLoading := False, error := [] \<rparr>, None)
      else (s\<lparr> messages := messages s @ [userMessage messageText],
               input := (if messageText = input r then [] else input s),
               isLoading := True, error := [] \<rparr>,
            Some (assembleContents (messages r @ [userMessage messageText]))))"
  using assms by (simp add: beforeAwait_def dispatchRequest_def assembleContents_nonempty Let_def)

lemma handleSendMessage_from_guard:
  assumes "trim messageText \<noteq> []" and "\<not> isLoading r" and "aiRef s"
  shows "handleSendMessage remote messageText r s =
     sendAssembled remote (assembleContents (messages r @ [userMessage messageText]))
       (s\<lparr> messages := messages s @ [userMessage messageText],
           input := (if messageText = input r then [] else input s),
           isLoading := True, error := [] \<rparr>)"
  using assms
  by (simp add: handleSendMessage_def sendAssembled_def beforeAwait_def Let_def)

text \<open>
  Claim C3. When the send passes its entry guard and the call fails (the client is missing,
  or the awaited call or the reading of its response throws), the log after the handler is
  the log before it, the user's message, and one fallback message; the loading flag is
  false. The continuation alone, whatever happened while the call was pending, appends
  exactly the fallback message and clears the flag. The fallback message has role model and
  the fixed text.
\<close>

theorem remote_failure_appends_one_fallback_message:
  assumes "trim messageText \<noteq> []" and "\<not> isLoading r"
    and "\<not> aiRef s \<or> remote (assembleContents (messages r @ [userMessage messageText])) = Rejected"
  shows "messages (fst (handleSendMessage remote messageText r s))
           = messages s @ [userMessage messageText] @ [errorMessage]
       \<and> \<not> isLoading (fst (handleSendMessage remote messageText r s))
       \<and> messages (afterAwait Rejected s') = messages s' @ [errorMessage]
       \<and> \<not> isLoading (afterAwait Rejected s')
       \<and> sender errorMessage = Model
       \<and> text errorMessage
           = js ''I'm having a little trouble connecting right now. Please try again in a moment.''"
proof (cases "aiRef s")
  case False
  then show ?thesis
    by (simp add: handleSendMessage_def beforeAwait_started[OF assms(1,2)] afterAwait_def errorMessage_def)
next
  case True
  with assms(3) have "remote (assembleContents (messages r @ [userMessage messageText])) = Rejected"
    by blast
  with True show ?thesis
    by (simp add: handleSendMessage_def beforeAwait_started[OF assms(1,2)] afterAwait_def errorMessage_def)
qed

theorem remote_failure_appends_one_fallback_message_witness:
  "trim [0x48, 0x69] \<noteq> [] \<and> \<not> isLoading (mount True)
   \<and> messages (fst (handleSendMessage (\<lambda>cs. Rejected) [0x48, 0x69] (mount True) (mount True)))
       = INITIAL_MESSAGES @ [userMessage [0x48, 0x69]] @ [errorMessage]
   \<and> \<not> isLoading (fst (handleSendMessage (\<lambda>cs. Rejected) [0x48, 0x69] (mount True) (mount True)))"
proof -
  have t: "trim [0x48, 0x69] \<noteq> []" by (simp add: trim_def isJsSpace_def)
  have l: "\<not> isLoading (mount True)" by (simp add: mount_def)
  have m: "messages (mount True) = INITIAL_MESSAGES" by (simp add: mount_def)
  from remote_failure_appends_one_fallback_message
         [of "[0x48, 0x69]" "mount True" "mount True" "\<lambda>cs. Rejected", OF t l]
  show ?thesis using t l by (simp add: m)
qed

text \<open>
  Claim C10. A send with an empty or whitespace-only text, or while a request is loading,
  returns at once: the whole state (log, draft, loading flag, error string) is unchanged and
  no request is sent.
\<close>

theorem blank_or_busy_send_changes_nothing:
  assumes "messageText = [] \<or> (\<forall>c \<in> set messageText. isJsSpace c) \<or> isLoading r"
  shows "beforeAwait messageText r s = (s, None)
       \<and> handleSendMessage remote messageText r s = (s, None)"
proof -
  from assms have "trim messageText = [] \<or> isLoading r"
    by (auto simp add: trim_empty_iff)
  then have "beforeAwait messageText r s = (s, None)"
    by (auto simp add: beforeAwait_def)
  then show ?thesis by (simp add: handleSendMessage_def)
qed

theorem blank_or_busy_send_changes_nothing_witness:
  "handleSendMessage (\<lambda>cs. Resolved [0x4F, 0x4B]) [0x20, 0x09, 0x0A] (mount True) (mount True)
     = (mount True, None)
   \<and> handleSendMessage (\<lambda>cs. Resolved [0x4F, 0x4B]) [0x48, 0x69]
       ((mount True)\<lparr> isLoading := True \<rparr>) ((mount True)\<lparr> isLoading := True \<rparr>)
     = ((mount True)\<lparr> isLoading := True \<rparr>, None)"
proof -
  have a: "\<forall>c \<in> set [0x20, 0x09, 0x0A]. isJsSpace c" by (simp add: isJsSpace_def)
  have b: "isLoading ((mount True)\<lparr> isLoading := True \<rparr>)" by simp
  from blank_or_busy_send_changes_nothing[of "[0x20, 0x09, 0x0A]" "mount True" "mount True"
         "\<lambda>cs. Resolved [0x4F, 0x4B]"] a
  have 1: "handleSendMessage (\<lambda>cs. Resolved [0x4F, 0x4B]) [0x20, 0x09, 0x0A] (mount True) (mount True)
     = (mount True, None)" by blast
  from blank_or_busy_send_changes_nothing[of "[0x48, 0x69]" "(mount True)\<lparr> isLoading := True \<rparr>"
         "(mount True)\<lparr> isLoading := True \<rparr>" "\<lambda>cs. Resolved [0x4F, 0x4B]"] b
  have 2: "handleSendMessage (\<lambda>cs. Resolved [0x4F, 0x4B]) [0x48, 0x69]
       ((mount True)\<lparr> isLoading := True \<rparr>) ((mount True)\<lparr> isLoading := True \<rparr>)
     = ((mount True)\<lparr> isLoading := True \<rparr>, None)" by blast
  from 1 2 show ?thesis by (rule conjI)
qed

text \<open>
  Claim C5. With an empty turn list the handler sends no request (its result does not
  depend on the remote service), clears the loading flag and leaves the log as it is.
  (\<open>assembleContents_nonempty\<close>: the list the handler assembles always holds the user's
  new turn, so it is never empty.)
\<close>

theorem empty_turn_list_aborts_the_request:
  "mergedContents = [] \<longrightarrow>
     sendAssembled remote mergedContents s = (s\<lparr> isLoading := False \<rparr>, None)
     \<and> dispatchRequest mergedContents s = (s\<lparr> isLoading := False \<rparr>, None)
     \<and> \<not> isLoading (fst (sendAssembled remote mergedContents s))
     \<and> messages (fst (sendAssembled remote mergedContents s)) = messages s"
  by (simp add: sendAssembled_def dispatchRequest_def)

theorem empty_turn_list_aborts_the_request_witness:
  "snd (sendAssembled (\<lambda>cs. Resolved [0x4F, 0x4B]) [] ((mount True)\<lparr> isLoading := True \<rparr>)) = None
   \<and> \<not> isLoading (fst (sendAssembled (\<lambda>cs. Resolved [0x4F, 0x4B]) [] ((mount True)\<lparr> isLoading := True \<rparr>)))
   \<and> messages (fst (sendAssembled (\<lambda>cs. Resolved [0x4F, 0x4B]) [] ((mount True)\<lparr> isLoading := True \<rparr>)))
       = INITIAL_MESSAGES"
  using empty_turn_list_aborts_the_request
          [of "[]" "\<lambda>cs. Resolved [0x4F, 0x4B]" "(mount True)\<lparr> isLoading := True \<rparr>"]
  by (simp add: mount_def)

section \<open>Sessions: the mood history and the message log\<close>

lemma sliceLast_sliceLast: "m \<le> n \<Longrightarrow> sliceLast m (sliceLast n xs) = sliceLast m xs"
  by (cases "length xs \<le> n") (auto simp add: sliceLast_drop)

lemma sliceLast_full: "length xs = n \<Longrightarrow> 0 < n \<Longrightarrow> sliceLast n (xs @ [x]) = tl xs @ [x]"
  by (cases xs) (auto simp add: sliceLast_def)

lemma sliceLast_snoc': "0 < n \<Longrightarrow> sliceLast n (xs @ [x]) = sliceLast (n - 1) xs @ [x]"
  by (cases n) (simp_all add: sliceLast_snoc)

lemma moodEntriesOf_append: "moodEntriesOf (evs @ evs') = moodEntriesOf evs @ moodEntriesOf evs'"
  by (induction evs rule: moodEntriesOf.induct) simp_all

lemma beforeAwait_appends: "\<exists>new. messages (fst (beforeAwait t r s)) = messages s @ new"
  by (simp add: beforeAwait_def dispatchRequest_def Let_def)

lemma afterAwait_appends: "\<exists>new. messages (afterAwait result s) = messages s @ new"
  by (cases result) (simp_all add: afterAwait_def)

lemma beforeAwait_moodHistory: "moodHistory (fst (beforeAwait t r s)) = moodHistory s"
  by (simp add: beforeAwait_def dispatchRequest_def Let_def)

lemma afterAwait_moodHistory: "moodHistory (afterAwait result s) = moodHistory s"
  by (cases result) (simp_all add: afterAwait_def)

lemma handleSendMessage_appends:
  "\<exists>new. messages (fst (handleSendMessage remote t r s)) = messages s @ new"
proof (cases "beforeAwait t r s")
  case (Pair s1 req)
  from beforeAwait_appends[of t r s] Pair obtain new1 where n1: "messages s1 = messages s @ new1"
    by auto
  show ?thesis
  proof (cases req)
    case None
    with Pair n1 show ?thesis by (simp add: handleSendMessage_def)
  next
    case (Some cs)
    from afterAwait_appends[of "remote cs" s1] obtain new2
      where "messages (afterAwait (remote cs) s1) = messages s1 @ new2" by blast
    with Pair Some n1 show ?thesis by (simp add: handleSendMessage_def)
  qed
qed

lemma handleSendMessage_moodHistory:
  "moodHistory (fst (handleSendMessage remote t r s)) = moodHistory s"
  using beforeAwait_moodHistory[of t r s]
  by (cases "beforeAwait t r s")
     (auto simp add: handleSendMessage_def afterAwait_moodHistory split: option.splits)

lemma fire_appends:
  "ev \<noteq> NewChatClicked \<Longrightarrow> \<exists>new. messages (dash (fire \<sigma> ev)) = messages (dash \<sigma>) @ new"
proof (cases ev)
  case (Typed t)
  then show ?thesis by simp
next
  case Submitted
  then show ?thesis using beforeAwait_appends by (simp add: launch_def)
next
  case (MoodSelected m now)
  from beforeAwait_appends[of "moodPrompt m" "dash \<sigma>" "moodUpdates m now (dash \<sigma>)"]
  obtain new where "messages (fst (beforeAwait (moodPrompt m) (dash \<sigma>) (moodUpdates m now (dash \<sigma>))))
      = messages (moodUpdates m now (dash \<sigma>)) @ new" by blast
  with MoodSelected show ?thesis by (simp add: launch_def moodUpdates_def)
next
  case NewChatClicked
  assume "ev \<noteq> NewChatClicked"
  with NewChatClicked show ?thesis by simp
next
  case (Settled result)
  then show ?thesis using afterAwait_appends by simp
qed

lemma fire_keeps_seed:
  assumes "\<exists>rest. messages (dash \<sigma>) = INITIAL_MESSAGES @ rest"
  shows "\<exists>rest. messages (dash (fire \<sigma> ev)) = INITIAL_MESSAGES @ rest"
proof (cases "ev = NewChatClicked")
  case True
  then show ?thesis by (simp add: handleNewChat_def)
next
  case False
  from fire_appends[OF False, of \<sigma>] obtain new
    where "messages (dash (fire \<sigma> ev)) = messages (dash \<sigma>) @ new" by blast
  with assms show ?thesis by auto
qed

lemma foldl_fire_keeps_seed:
  "\<exists>rest. messages (dash \<sigma>) = INITIAL_MESSAGES @ rest \<Longrightarrow>
   \<exists>rest. messages (dash (foldl fire \<sigma> evs)) = INITIAL_MESSAGES @ rest"
proof (induction evs arbitrary: \<sigma>)
  case Nil
  then show ?case by simp
next
  case (Cons ev evs)
  from fire_keeps_seed[OF Cons.prems, of ev] have "\<exists>rest. messages (dash (fire \<sigma> ev)) = INITIAL_MESSAGES @ rest" .
  from Cons.IH[OF this] show ?case by simp
qed

lemma run_keeps_seed: "\<exists>rest. messages (dash (run ok evs)) = INITIAL_MESSAGES @ rest"
  unfolding run_def by (rule foldl_fire_keeps_seed) (simp add: mount_def)

lemma fire_moodHistory:
  "moodHistory (dash (fire \<sigma> ev)) =
     (case ev of
        MoodSelected m now \<Rightarrow> sliceLast 7 (moodHistory (dash \<sigma>) @ [\<lparr> mood = m, date = now \<rparr>])
      | _ \<Rightarrow> moodHistory (dash \<sigma>))"
  by (cases ev)
     (simp_all add: launch_def beforeAwait_moodHistory afterAwait_moodHistory handleNewChat_def
        moodUpdates_def)

lemma run_snoc: "run ok (evs @ [ev]) = fire (run ok evs) ev"
  by (simp add: run_def)

lemma run_moodHistory: "moodHistory (dash (run ok evs)) = sliceLast 7 (moodEntriesOf evs)"
proof (induction evs rule: rev_induct)
  case Nil
  show ?case by (simp add: run_def mount_def sliceLast_def)
next
  case (snoc ev evs)
  show ?case
  proof (cases ev)
    case (MoodSelected m now)
    have "sliceLast 7 (sliceLast 7 (moodEntriesOf evs) @ [\<lparr> mood = m, date = now \<rparr>])
          = sliceLast 6 (sliceLast 7 (moodEntriesOf evs)) @ [\<lparr> mood = m, date = now \<rparr>]"
      by (simp add: sliceLast_snoc')
    also have "\<dots> = sliceLast 6 (moodEntriesOf evs) @ [\<lparr> mood = m, date = now \<rparr>]"
      by (simp add: sliceLast_sliceLast)
    also have "\<dots> = sliceLast 7 (moodEntriesOf evs @ [\<lparr> mood = m, date = now \<rparr>])"
      by (simp add: sliceLast_snoc')
    finally show ?thesis
      using MoodSelected snoc.IH
      by (simp add: run_snoc fire_moodHistory moodEntriesOf_append del: fire.simps)
  qed (simp_all add: run_snoc fire_moodHistory moodEntriesOf_append snoc.IH del: fire.simps)
qed

text \<open>
  Claim C6. After any sequence of events of a session the mood history is the last seven of
  the mood entries recorded so far, in the order they were recorded, so it never has more
  than seven entries. From any state, a mood selection leaves the last seven of the old
  history followed by the new entry; when the history already holds seven entries, its
  oldest entry goes and the new one is put at the end.
\<close>

theorem mood_history_keeps_the_last_seven:
  "moodHistory (dash (run ok evs)) = sliceLast 7 (moodEntriesOf evs)
   \<and> length (moodHistory (dash (run ok evs))) \<le> 7
   \<and> moodHistory (fst (handleMoodSelection remote m now s))
       = sliceLast 7 (moodHistory s @ [\<lparr> mood = m, date = now \<rparr>])
   \<and> length (moodHistory (fst (handleMoodSelection remote m now s))) \<le> 7
   \<and> (length (moodHistory s) = 7 \<longrightarrow>
        moodHistory (fst (handleMoodSelection remote m now s))
          = tl (moodHistory s) @ [\<lparr> mood = m, date = now \<rparr>])"
proof -
  have h: "moodHistory (fst (handleMoodSelection remote m now s))
       = sliceLast 7 (moodHistory s @ [\<lparr> mood = m, date = now \<rparr>])"
    by (simp add: handleMoodSelection_def handleSendMessage_moodHistory moodUpdates_def)
  have f: "length (moodHistory s) = 7 \<longrightarrow>
        sliceLast 7 (moodHistory s @ [\<lparr> mood = m, date = now \<rparr>])
          = tl (moodHistory s) @ [\<lparr> mood = m, date = now \<rparr>]"
    by (simp add: sliceLast_full)
  show ?thesis
    unfolding h run_moodHistory using f length_sliceLast by blast
qed

theorem mood_history_keeps_the_last_seven_witness:
  "length (moodHistory ((mount True)\<lparr> moodHistory :=
       [\<lparr> mood = Happy, date = 1 \<rparr>, \<lparr> mood = Sad, date = 2 \<rparr>, \<lparr> mood = Neutral, date = 3 \<rparr>,
        \<lparr> mood = Anxious, date = 4 \<rparr>, \<lparr> mood = Happy, date = 5 \<rparr>, \<lparr> mood = Sad, date = 6 \<rparr>,
        \<lparr> mood = Neutral, date = 7 \<rparr>] \<rparr>)) = 7
   \<and> moodHistory (fst (handleMoodSelection (\<lambda>cs. Rejected) Anxious 8
       ((mount True)\<lparr> moodHistory :=
       [\<lparr> mood = Happy, date = 1 \<rparr>, \<lparr> mood = Sad, date = 2 \<rparr>, \<lparr> mood = Neutral, date = 3 \<rparr>,
        \<lparr> mood = Anxious, date = 4 \<rparr>, \<lparr> mood = Happy, date = 5 \<rparr>, \<lparr> mood = Sad, date = 6 \<rparr>,
        \<lparr> mood = Neutral, date = 7 \<rparr>] \<rparr>)))
     = [\<lparr> mood = Sad, date = 2 \<rparr>, \<lparr> mood = Neutral, date = 3 \<rparr>,
        \<lparr> mood = Anxious, date = 4 \<rparr>, \<lparr> mood = Happy, date = 5 \<rparr>, \<lparr> mood = Sad, date = 6 \<rparr>,
        \<lparr> mood = Neutral, date = 7 \<rparr>, \<lparr> mood = Anxious, date = 8 \<rparr>]
   \<and> moodHistory (dash (run True
       [MoodSelected Happy 1, MoodSelected Sad 2, MoodSelected Neutral 3, MoodSelected Anxious 4,
        NewChatClicked, MoodSelected Happy 5, MoodSelected Sad 6, Settled Rejected,
        MoodSelected Neutral 7, MoodSelected Anxious 8]))
     = [\<lparr> mood = Sad, date = 2 \<rparr>, \<lparr> mood = Neutral, date = 3 \<rparr>,
        \<lparr> mood = Anxious, date = 4 \<rparr>, \<lparr> mood = Happy, date = 5 \<rparr>, \<lparr> mood = Sad, date = 6 \<rparr>,
        \<lparr> mood = Neutral, date = 7 \<rparr>, \<lparr> mood = Anxious, date = 8 \<rparr>]"
  using mood_history_keeps_the_last_seven
          [where ok = True and remote = "\<lambda>cs. Rejected" and m = Anxious and now = 8
             and evs = "[MoodSelected Happy 1, MoodSelected Sad 2, MoodSelected Neutral 3,
                         MoodSelected Anxious 4, NewChatClicked, MoodSelected Happy 5,
                         MoodSelected Sad 6, Settled Rejected, MoodSelected Neutral 7,
                         MoodSelected Anxious 8]"
             and s = "(mount True)\<lparr> moodHistory :=
       [\<lparr> mood = Happy, date = 1 \<rparr>, \<lparr> mood = Sad, date = 2 \<rparr>, \<lparr> mood = Neutral, date = 3 \<rparr>,
        \<lparr> mood = Anxious, date = 4 \<rparr>, \<lparr> mood = Happy, date = 5 \<rparr>, \<lparr> mood = Sad, date = 6 \<rparr>,
        \<lparr> mood = Neutral, date = 7 \<rparr>] \<rparr>"]
  by (simp add: sliceLast_def)

text \<open>
  Claim C7. After any sequence of events of a session (typing, sends, mood selections, new
  chats, requests settling in any order) the log starts with the messages of
  \<open>INITIAL_MESSAGES\<close>, which is one message of the model; so the log is not empty and
  its first element is that greeting. Every event but the new-chat reset appends to the
  log, and so do the two handlers run to completion; the reset puts the log back to
  \<open>INITIAL_MESSAGES\<close>.
\<close>

theorem log_starts_with_the_seed_greeting:
  "(\<exists>rest. messages (dash (run ok evs)) = INITIAL_MESSAGES @ rest)
   \<and> messages (dash (run ok evs)) \<noteq> []
   \<and> hd (messages (dash (run ok evs))) = hd INITIAL_MESSAGES
   \<and> length INITIAL_MESSAGES = 1
   \<and> sender (hd INITIAL_MESSAGES) = Model
   \<and> (ev \<noteq> NewChatClicked \<longrightarrow> (\<exists>new. messages (dash (fire \<sigma> ev)) = messages (dash \<sigma>) @ new))
   \<and> messages (dash (fire \<sigma> NewChatClicked)) = INITIAL_MESSAGES
   \<and> (\<exists>new. messages (fst (handleSendMessage remote t r s)) = messages s @ new)
   \<and> (\<exists>new. messages (fst (handleMoodSelection remote m now s)) = messages s @ new)"
proof -
  obtain rest where rest: "messages (dash (run ok evs)) = INITIAL_MESSAGES @ rest"
    using run_keeps_seed by blast
  have ne: "INITIAL_MESSAGES \<noteq> []" by (simp add: INITIAL_MESSAGES_def)
  have 1: "messages (dash (run ok evs)) \<noteq> []" using rest ne by simp
  have 2: "hd (messages (dash (run ok evs))) = hd INITIAL_MESSAGES" using rest ne by simp
  have 3: "length INITIAL_MESSAGES = 1" "sender (hd INITIAL_MESSAGES) = Model"
    by (simp_all add: INITIAL_MESSAGES_def)
  have 4: "ev \<noteq> NewChatClicked \<longrightarrow> (\<exists>new. messages (dash (fire \<sigma> ev)) = messages (dash \<sigma>) @ new)"
    using fire_appends by blast
  have 5: "messages (dash (fire \<sigma> NewChatClicked)) = INITIAL_MESSAGES"
    by (simp add: handleNewChat_def)
  have 6: "\<exists>new. messages (fst (handleSendMessage remote t r s)) = messages s @ new"
    by (rule handleSendMessage_appends)
  from handleSendMessage_appends[of remote "moodPrompt m" s "moodUpdates m now s"]
  have 7: "\<exists>new. messages (fst (handleMoodSelection remote m now s)) = messages s @ new"
    by (auto simp add: handleMoodSelection_def moodUpdates_def)
  from rest 1 2 3 4 5 6 7 show ?thesis by blast
qed

theorem log_starts_with_the_seed_greeting_witness:
  "Submitted \<noteq> NewChatClicked
   \<and> (\<exists>new. messages (dash (fire \<lparr> dash = (mount True)\<lparr> input := [0x48, 0x69] \<rparr>, inFlight = 0 \<rparr> Submitted))
              = messages (dash \<lparr> dash = (mount True)\<lparr> input := [0x48, 0x69] \<rparr>, inFlight = 0 \<rparr>) @ new)
   \<and> hd (messages (dash (run True [Typed [0x48, 0x69], Submitted, NewChatClicked, Settled Rejected])))
       = hd INITIAL_MESSAGES"
proof -
  have d: "Submitted \<noteq> NewChatClicked" by simp
  from log_starts_with_the_seed_greeting
         [where ok = True and ev = Submitted
            and evs = "[Typed [0x48, 0x69], Submitted, NewChatClicked, Settled Rejected]"
            and \<sigma> = "\<lparr> dash = (mount True)\<lparr> input := [0x48, 0x69] \<rparr>, inFlight = 0 \<rparr>"]
  show ?thesis using d by blast
qed

section \<open>Login\<close>

lemma matchHere_Once:
  "matchHere (Once a # ps) s \<longleftrightarrow> (\<exists>c cs. s = c # cs \<and> atomOk a c \<and> matchHere ps cs)"
  by (cases s) simp_all

lemma matchHere_Repeat:
  "matchHere (Repeat a # ps) s \<longleftrightarrow>
     (\<exists>w r. s = w @ r \<and> w \<noteq> [] \<and> (\<forall>x \<in> set w. atomOk a x) \<and> matchHere ps r)"
proof (induction s)
  case Nil
  show ?case by simp
next
  case (Cons c cs)
  show ?case
  proof
    assume "matchHere (Repeat a # ps) (c # cs)"
    then have ok: "atomOk a c" and alt: "matchHere (Repeat a # ps) cs \<or> matchHere ps cs"
      by simp_all
    from alt show "\<exists>w r. c # cs = w @ r \<and> w \<noteq> [] \<and> (\<forall>x \<in> set w. atomOk a x) \<and> matchHere ps r"
    proof
      assume "matchHere (Repeat a # ps) cs"
      with Cons.IH obtain w r where wr: "cs = w @ r" "w \<noteq> []" "\<forall>x \<in> set w. atomOk a x" "matchHere ps r"
        by blast
      show ?thesis
        by (rule exI[of _ "c # w"], rule exI[of _ r]) (simp add: wr ok)
    next
      assume "matchHere ps cs"
      then show ?thesis
        by (intro exI[of _ "[c]"] exI[of _ cs]) (simp add: ok)
    qed
  next
    assume "\<exists>w r. c # cs = w @ r \<and> w \<noteq> [] \<and> (\<forall>x \<in> set w. atomOk a x) \<and> matchHere ps r"
    then obtain w r where wr: "c # cs = w @ r" "w \<noteq> []" "\<forall>x \<in> set w. atomOk a x" "matchHere ps r"
      by blast
    from wr(1,2) obtain w' where w': "w = c # w'" "cs = w' @ r"
      by (cases w) auto
    from wr(3) w'(1) have ok: "atomOk a c" and rest: "\<forall>x \<in> set w'. atomOk a x" by auto
    show "matchHere (Repeat a # ps) (c # cs)"
    proof (cases "w' = []")
      case True
      with w'(2) wr(4) ok show ?thesis by simp
    next
      case False
      with w'(2) rest wr(4) have "matchHere (Repeat a # ps) cs"
        using Cons.IH by blast
      with ok show ?thesis by simp
    qed
  qed
qed

lemma regexTest_iff: "regexTest ps s \<longleftrightarrow> (\<exists>u r. s = u @ r \<and> matchHere ps r)"
proof (induction s)
  case Nil
  show ?case by simp
next
  case (Cons c cs)
  show ?case
  proof
    assume "regexTest ps (c # cs)"
    then have "matchHere ps (c # cs) \<or> regexTest ps cs" by simp
    then show "\<exists>u r. c # cs = u @ r \<and> matchHere ps r"
    proof
      assume "matchHere ps (c # cs)"
      then show ?thesis by (intro exI[of _ "[]"] exI[of _ "c # cs"]) simp
    next
      assume "regexTest ps cs"
      with Cons.IH obtain u r where "cs = u @ r" "matchHere ps r" by blast
      then show ?thesis by (intro exI[of _ "c # u"] exI[of _ r]) simp
    qed
  next
    assume "\<exists>u r. c # cs = u @ r \<and> matchHere ps r"
    then obtain u r where ur: "c # cs = u @ r" "matchHere ps r" by blast
    show "regexTest ps (c # cs)"
    proof (cases u)
      case Nil
      with ur have "matchHere ps (c # cs)" by simp
      then show ?thesis by simp
    next
      case (Cons d u')
      with ur have "cs = u' @ r" by simp
      with ur(2) Cons.IH have "regexTest ps cs" by blast
      then show ?thesis by simp
    qed
  qed
qed

lemma matchHere_nonSpaces:
  "matchHere (Repeat NonSpace # ps) s \<longleftrightarrow> (\<exists>w r. s = w @ r \<and> nonSpaces w \<and> matchHere ps r)"
  by (simp add: matchHere_Repeat nonSpaces_def)

lemma matchHere_Lit:
  "matchHere (Once (Lit l) # ps) s \<longleftrightarrow> (\<exists>cs. s = l # cs \<and> matchHere ps cs)"
  by (cases s) auto

lemma regexTest_emailPattern: "regexTest emailPattern e = emailShaped e"
proof
  assume "regexTest emailPattern e"
  then obtain u r where 1: "e = u @ r" "matchHere emailPattern r"
    by (auto simp add: regexTest_iff)
  from 1(2) obtain a r1 where 2: "r = a @ r1" "nonSpaces a"
      "matchHere [Once (Lit 0x40), Repeat NonSpace, Once (Lit 0x2E), Repeat NonSpace] r1"
    unfolding emailPattern_def matchHere_nonSpaces by blast
  from 2(3) obtain r2 where 3: "r1 = 0x40 # r2"
      "matchHere [Repeat NonSpace, Once (Lit 0x2E), Repeat NonSpace] r2"
    unfolding matchHere_Lit by blast
  from 3(2) obtain b r3 where 4: "r2 = b @ r3" "nonSpaces b"
      "matchHere [Once (Lit 0x2E), Repeat NonSpace] r3"
    unfolding matchHere_nonSpaces by blast
  from 4(3) obtain r4 where 5: "r3 = 0x2E # r4" "matchHere [Repeat NonSpace] r4"
    unfolding matchHere_Lit by blast
  from 5(2) obtain c v where 6: "r4 = c @ v" "nonSpaces c"
    unfolding matchHere_nonSpaces by blast
  have "e = u @ a @ 0x40 # b @ 0x2E # c @ v"
    by (simp add: 1(1) 2(1) 3(1) 4(1) 5(1) 6(1))
  with 2(2) 4(2) 6(2) show "emailShaped e" unfolding emailShaped_def by blast
next
  assume "emailShaped e"
  then obtain u a b c v where e: "e = u @ a @ 0x40 # b @ 0x2E # c @ v"
    and n: "nonSpaces a" "nonSpaces b" "nonSpaces c"
    unfolding emailShaped_def by blast
  have 5: "matchHere [Repeat NonSpace] (c @ v)"
    unfolding matchHere_nonSpaces using n(3) by auto
  then have 4: "matchHere [Once (Lit 0x2E), Repeat NonSpace] (0x2E # c @ v)"
    by simp
  have 3: "matchHere [Repeat NonSpace, Once (Lit 0x2E), Repeat NonSpace] (b @ 0x2E # c @ v)"
    unfolding matchHere_nonSpaces using n(2) 4 by blast
  then have 2: "matchHere [Once (Lit 0x40), Repeat NonSpace, Once (Lit 0x2E), Repeat NonSpace]
                  (0x40 # b @ 0x2E # c @ v)"
    by simp
  have 1: "matchHere emailPattern (a @ 0x40 # b @ 0x2E # c @ v)"
    unfolding emailPattern_def matchHere_nonSpaces using n(1) 2 by blast
  show "regexTest emailPattern e"
    unfolding regexTest_iff e using 1 by blast
qed

text \<open>
  Claim C8. From the logged-out state, a submission logs the user in exactly when the email
  is not empty, contains a match of \<^verbatim>\<open>\S+@\S+\.\S+\<close> and the password is not empty; the
  session then carries the submitted email. The outcome is a function of the two fields
  alone, no stored credential takes part. Otherwise the session is unchanged, so still
  logged out, and the form's error message is set. The test of the pattern is the search
  \<open>regexTest\<close>, which agrees with \<open>emailShaped\<close>.
\<close>

theorem login_needs_wellformed_email_and_password:
  assumes "\<not> isAuthenticated a"
  shows "(isAuthenticated (snd (handleSubmit l a))
            \<longleftrightarrow> email l \<noteq> [] \<and> emailShaped (email l) \<and> password l \<noteq> [])
       \<and> (isAuthenticated (snd (handleSubmit l a)) \<longrightarrow> userEmail (snd (handleSubmit l a)) = email l)
       \<and> (\<not> isAuthenticated (snd (handleSubmit l a)) \<longrightarrow>
             snd (handleSubmit l a) = a \<and> loginError (fst (handleSubmit l a)) \<noteq> [])
       \<and> regexTest emailPattern (email l) = emailShaped (email l)"
  using assms
  by (simp add: handleSubmit_def handleLogin_def regexTest_emailPattern js_def)

theorem login_needs_wellformed_email_and_password_witness:
  "\<not> isAuthenticated initialApp
   \<and> isAuthenticated (snd (handleSubmit
        \<lparr> email = [0x61, 0x40, 0x62, 0x2E, 0x63], password = [0x78], loginError = [] \<rparr> initialApp))
   \<and> userEmail (snd (handleSubmit
        \<lparr> email = [0x61, 0x40, 0x62, 0x2E, 0x63], password = [0x78], loginError = [] \<rparr> initialApp))
       = [0x61, 0x40, 0x62, 0x2E, 0x63]
   \<and> emailShaped [0x61, 0x40, 0x62, 0x2E, 0x63]
   \<and> \<not> isAuthenticated (snd (handleSubmit
        \<lparr> email = [0x61, 0x20, 0x40, 0x62], password = [0x78], loginError = [] \<rparr> initialApp))
   \<and> loginError (fst (handleSubmit
        \<lparr> email = [0x61, 0x20, 0x40, 0x62], password = [0x78], loginError = [] \<rparr> initialApp)) \<noteq> []"
proof -
  have out: "\<not> isAuthenticated initialApp" by (simp add: initialApp_def)
  have good: "isAuthenticated (snd (handleSubmit
        \<lparr> email = [0x61, 0x40, 0x62, 0x2E, 0x63], password = [0x78], loginError = [] \<rparr> initialApp))"
    by (simp add: handleSubmit_def handleLogin_def emailPattern_def isJsSpace_def)
  have bad: "\<not> isAuthenticated (snd (handleSubmit
        \<lparr> email = [0x61, 0x20, 0x40, 0x62], password = [0x78], loginError = [] \<rparr> initialApp))"
    by (simp add: handleSubmit_def handleLogin_def emailPattern_def isJsSpace_def initialApp_def)
  from login_needs_wellformed_email_and_password
         [OF out, of "\<lparr> email = [0x61, 0x40, 0x62, 0x2E, 0x63], password = [0x78], loginError = [] \<rparr>"]
       good
  have g: "userEmail (snd (handleSubmit
        \<lparr> email = [0x61, 0x40, 0x62, 0x2E, 0x63], password = [0x78], loginError = [] \<rparr> initialApp))
       = [0x61, 0x40, 0x62, 0x2E, 0x63]" "emailShaped [0x61, 0x40, 0x62, 0x2E, 0x63]"
    by simp_all
  from login_needs_wellformed_email_and_password
         [OF out, of "\<lparr> email = [0x61, 0x20, 0x40, 0x62], password = [0x78], loginError = [] \<rparr>"]
       bad
  have b: "loginError (fst (handleSubmit
        \<lparr> email = [0x61, 0x20, 0x40, 0x62], password = [0x78], loginError = [] \<rparr> initialApp)) \<noteq> []"
    by blast
  from out good g bad b show ?thesis by blast
qed

end
